theory Spec2Isabelle
  imports Complex_Main "HOL-Library.Word"
begin

section \<open>Conventions\<close>

text \<open>
  The development follows three components of the recorder: the \<^verbatim>\<open>Waveform\<close> renderer
  (two variants of the component are in the sources), the \<^verbatim>\<open>useMicrophone\<close> hook and
  the \<^verbatim>\<open>RecorderApp\<close> shell.

  JavaScript numbers are modelled as \<^typ>\<open>real\<close>: the arithmetic is exact, IEEE rounding is
  not modelled. Timestamps (\<^verbatim>\<open>Date.now()\<close>, milliseconds) are \<^typ>\<open>int\<close>. The bytes of a
  \<^verbatim>\<open>Uint8Array\<close> are \<^typ>\<open>8 word\<close>; reading one as a number is \<^term>\<open>uint\<close>.
\<close>

section \<open>Waveform: canvas sizing\<close>

record canvas_size =
  width :: real
  height :: real

text \<open>
  \<^verbatim>\<open>updateCanvasSize\<close> is the same text in both variants of the component. The first
  argument is \<^verbatim>\<open>canvasRef.current?.parentElement\<close>, given by its \<^verbatim>\<open>clientWidth\<close>
  (\<open>None\<close> when there is no container: the size is then left as it is); \<open>propWidth\<close>
  and \<open>propHeight\<close> are the props \<^verbatim>\<open>width\<close> and \<^verbatim>\<open>height\<close> of the component. For a prop
  \<^verbatim>\<open>width = 0\<close> JavaScript divides to an infinity or NaN where HOL divides to \<open>0\<close>; the
  theorems below ask for \<open>propWidth \<noteq> 0\<close>.
\<close>

definition updateCanvasSize :: "real option \<Rightarrow> real \<Rightarrow> real \<Rightarrow> canvas_size \<Rightarrow> canvas_size" where
  "updateCanvasSize container propWidth propHeight canvasSize =
     (case container of
        None \<Rightarrow> canvasSize
      | Some containerWidth \<Rightarrow>
          let calculatedWidth = containerWidth * 0.95;
              minWidth = max calculatedWidth 320;
              finalWidth = min minWidth 800;
              aspectRatio = propHeight / propWidth;
              responsiveHeight = finalWidth * aspectRatio
          in \<lparr>width = finalWidth, height = min responsiveHeight 200\<rparr>)"

section \<open>Waveform: the frame drawn\<close>

definition silenceThreshold :: real where
  "silenceThreshold = 0.01"

text \<open>The loop body \<^verbatim>\<open>sample = (dataArray[i] - 128) / 128; sum += sample * sample\<close>.\<close>

definition sample :: "8 word \<Rightarrow> real" where
  "sample b = (real_of_int (uint b) - 128) / 128"

definition rms :: "8 word list \<Rightarrow> real" where
  "rms dataArray =
     sqrt (foldl (\<lambda>sum b. sum + sample b * sample b) 0 dataArray / real (length dataArray))"

text \<open>
  For an empty snapshot JavaScript computes \<^verbatim>\<open>0 / 0 = NaN\<close> and \<^verbatim>\<open>NaN > 0.01\<close> is false;
  here \<open>rms [] = 0\<close> and the comparison is false as well.
\<close>

datatype branch = ActiveWave | FlatLine

text \<open>
  What one call of \<^verbatim>\<open>drawWaveform\<close> paints: \<open>None\<close> when the frame is skipped by one of
  the early returns, otherwise the value of the local \<^verbatim>\<open>speaking\<close> and the branch of the
  \<^verbatim>\<open>if\<close> that draws. \<open>canvas\<close> is \<^verbatim>\<open>canvasRef.current\<close> being present, \<open>analyser\<close> the
  analyser prop given by the time-domain snapshot it returns, \<open>ctx\<close> the 2D context being
  obtained.
\<close>

definition drawWaveform :: "bool \<Rightarrow> 8 word list option \<Rightarrow> bool \<Rightarrow> bool \<Rightarrow> (bool \<times> branch) option" where
  "drawWaveform canvas analyser ctx isSpeakingProp =
     (if \<not> canvas then None
      else case analyser of
        None \<Rightarrow> None
      | Some dataArray \<Rightarrow>
          if \<not> ctx then None
          else
            let currentVolume = rms dataArray;
                speaking = (currentVolume > silenceThreshold \<or> isSpeakingProp)
            in Some (speaking, if speaking then ActiveWave else FlatLine))"

text \<open>
  The second variant of the component (the sine-wave overlay): the same \<^verbatim>\<open>speaking\<close>, but
  the drawing branch is guarded by \<^verbatim>\<open>speaking && currentVolume > silenceThreshold\<close>.
\<close>

definition drawWaveform_overlay :: "bool \<Rightarrow> 8 word list option \<Rightarrow> bool \<Rightarrow> bool \<Rightarrow> (bool \<times> branch) option" where
  "drawWaveform_overlay canvas analyser ctx isSpeakingProp =
     (if \<not> canvas then None
      else case analyser of
        None \<Rightarrow> None
      | Some dataArray \<Rightarrow>
          if \<not> ctx then None
          else
            let currentVolume = rms dataArray;
                speaking = (currentVolume > silenceThreshold \<or> isSpeakingProp)
            in Some (speaking,
                 if speaking \<and> currentVolume > silenceThreshold then ActiveWave else FlatLine))"

section \<open>useMicrophone: state\<close>

text \<open>
  The state of the hook: the five \<^verbatim>\<open>useState\<close> cells and the seven \<^verbatim>\<open>useRef\<close> cells, under
  the names of the source. A media stream, an audio context, an analyser node and an
  animation-frame request are handles (\<^typ>\<open>nat\<close>, allocated from \<open>nextHandle\<close>, never \<open>0\<close>).
  The browser's side of the session is kept beside them: \<open>liveStreams\<close> are the streams
  whose tracks have not been stopped, \<open>openContexts\<close> the audio contexts that have not
  been closed.

  \<open>silenceTimeoutRef\<close> holds the pending \<^verbatim>\<open>setTimeout\<close>, given by the time at which it is
  due. The source stores every timeout it creates in this ref, creates one only when the
  ref is null, and nulls the ref when the timeout is cleared or has fired, so the ref and
  the pending timeout are the same thing.
\<close>

record mic =
  isListening :: bool
  isSpeaking :: bool
  hasPermission :: "bool option"
  audioLevel :: real
  error :: "string option"
  mediaStreamRef :: "nat option"
  audioContextRef :: "nat option"
  analyserRef :: "nat option"
  animationFrameRef :: "nat option"
  silenceTimeoutRef :: "int option"
  volumeHistoryRef :: "real list"
  lastSpeakingTimeRef :: int
  liveStreams :: "nat set"
  openContexts :: "nat set"
  nextHandle :: nat

definition initial :: mic where
  "initial =
     \<lparr>isListening = False, isSpeaking = False, hasPermission = None, audioLevel = 0,
      error = None, mediaStreamRef = None, audioContextRef = None, analyserRef = None,
      animationFrameRef = None, silenceTimeoutRef = None, volumeHistoryRef = [],
      lastSpeakingTimeRef = 0, liveStreams = {}, openContexts = {}, nextHandle = 1\<rparr>"

definition SILENCE_THRESHOLD :: real where
  "SILENCE_THRESHOLD = 0.005"

definition SILENCE_DELAY :: int where
  "SILENCE_DELAY = 800"

definition VOLUME_HISTORY_SIZE :: nat where
  "VOLUME_HISTORY_SIZE = 10"

definition MIN_SPEAKING_DURATION :: int where
  "MIN_SPEAKING_DURATION = 200"

text \<open>
  \<^verbatim>\<open>startListening\<close> sets \<^verbatim>\<open>analyser.fftSize = 1024\<close>, and an analyser's
  \<^verbatim>\<open>frequencyBinCount\<close> is half its FFT size, so every snapshot the hook or the renderer
  reads has 512 bytes. The functions below take any list of bytes; \<open>flat b\<close>, the
  snapshot whose every byte is \<open>b\<close>, is what the concrete runs below feed them.
\<close>

definition fftSize :: nat where
  "fftSize = 1024"

definition frequencyBinCount :: nat where
  "frequencyBinCount = fftSize div 2"

definition flat :: "8 word \<Rightarrow> 8 word list" where
  "flat b = replicate frequencyBinCount b"

section \<open>useMicrophone: analyzeAudio\<close>

datatype js_error = TypeError

text \<open>
  \<^verbatim>\<open>average = dataArray.reduce((a, b) => a + b) / dataArray.length\<close> and
  \<^verbatim>\<open>normalizedLevel = average / 255\<close>. A \<^verbatim>\<open>reduce\<close> with no initial value starts from the
  first element and throws a TypeError on an empty array; the accumulator is a number,
  so the sum does not wrap.
\<close>

definition normalizedLevel :: "8 word list \<Rightarrow> js_error + real" where
  "normalizedLevel dataArray =
     (case dataArray of
        [] \<Rightarrow> Inl TypeError
      | b0 # bs \<Rightarrow>
          let average = foldl (\<lambda>a b. a + real_of_int (uint b)) (real_of_int (uint b0)) bs
                          / real (length dataArray)
          in Inr (average / 255))"

text \<open>
  \<^verbatim>\<open>volumeHistoryRef.current.push(normalizedLevel)\<close>, then \<^verbatim>\<open>shift()\<close> when the length
  exceeds \<^verbatim>\<open>VOLUME_HISTORY_SIZE\<close>.
\<close>

definition push_history :: "real list \<Rightarrow> real \<Rightarrow> real list" where
  "push_history history v =
     (let pushed = history @ [v]
      in if length pushed > VOLUME_HISTORY_SIZE then tl pushed else pushed)"

text \<open>\<^verbatim>\<open>volumeHistoryRef.current.reduce((a, b) => a + b, 0) / volumeHistoryRef.current.length\<close>.\<close>

definition smoothedLevel :: "real list \<Rightarrow> real" where
  "smoothedLevel history = foldl (\<lambda>a b. a + b) 0 history / real (length history)"

text \<open>
  One call of \<^verbatim>\<open>analyzeAudio\<close>. Inside the callback \<^verbatim>\<open>isSpeaking\<close> is not read from the
  state: it is the constant that the closure captured when \<^verbatim>\<open>useCallback(..., [isSpeaking])\<close>
  created it, and the callback reschedules itself, not a later closure. The model takes
  that captured value as the argument \<open>cSpeaking\<close>, so the results below hold whichever
  closure runs. \<open>now\<close> is \<^verbatim>\<open>Date.now()\<close>, \<open>dataArray\<close> the frequency snapshot that
  \<^verbatim>\<open>getByteFrequencyData\<close> fills in. The result is \<open>Inl\<close> when the call throws (nothing has
  been written then, and nothing is rescheduled).
\<close>

definition analyzeAudio :: "bool \<Rightarrow> int \<Rightarrow> 8 word list \<Rightarrow> mic \<Rightarrow> js_error + mic" where
  "analyzeAudio cSpeaking now dataArray s =
     (if analyserRef s = None then Inr s
      else
        case normalizedLevel dataArray of
          Inl e \<Rightarrow> Inl e
        | Inr level \<Rightarrow>
            let s1 = s\<lparr>audioLevel := level,
                       volumeHistoryRef := push_history (volumeHistoryRef s) level\<rparr>;
                smoothed = smoothedLevel (volumeHistoryRef s1);
                currentTime = now;
                isCurrentlyAboveThreshold = (smoothed > SILENCE_THRESHOLD);
                s2 = (if isCurrentlyAboveThreshold then
                        let s1' = s1\<lparr>silenceTimeoutRef := None\<rparr>
                        in if \<not> cSpeaking
                           then s1'\<lparr>lastSpeakingTimeRef := currentTime, isSpeaking := True\<rparr>
                           else s1'
                      else if cSpeaking \<and> silenceTimeoutRef s1 = None
                           then s1\<lparr>silenceTimeoutRef := Some (now + SILENCE_DELAY)\<rparr>
                           else s1)
            in Inr (s2\<lparr>animationFrameRef := Some (nextHandle s2),
                        nextHandle := nextHandle s2 + 1\<rparr>))"

text \<open>
  The callback given to \<^verbatim>\<open>setTimeout\<close>, run at \<^verbatim>\<open>Date.now() = now\<close>. It reads the ref
  \<^verbatim>\<open>lastSpeakingTimeRef\<close> and sets the state through \<^verbatim>\<open>setIsSpeaking\<close>; it reads nothing
  from the closure.
\<close>

definition silenceTimeout :: "int \<Rightarrow> mic \<Rightarrow> mic" where
  "silenceTimeout now s =
     (let speakingDuration = now - lastSpeakingTimeRef s;
          s1 = (if speakingDuration \<ge> MIN_SPEAKING_DURATION then s\<lparr>isSpeaking := False\<rparr> else s)
      in s1\<lparr>silenceTimeoutRef := None\<rparr>)"

section \<open>useMicrophone: stopListening and startListening\<close>

text \<open>
  \<^verbatim>\<open>cancelAnimationFrame\<close> acts on the browser's callback queue only and leaves
  \<^verbatim>\<open>animationFrameRef\<close> as it is; the model lets a tick arrive at any time, so it has
  nothing to record for it.
\<close>

definition stopListening :: "mic \<Rightarrow> mic" where
  "stopListening s =
     (let s1 = s\<lparr>silenceTimeoutRef := None\<rparr>;
          s2 = (case mediaStreamRef s1 of
                  None \<Rightarrow> s1
                | Some stream \<Rightarrow> s1\<lparr>liveStreams := liveStreams s1 - {stream},
                                     mediaStreamRef := None\<rparr>);
          s3 = (case audioContextRef s2 of
                  None \<Rightarrow> s2
                | Some audioContext \<Rightarrow> s2\<lparr>openContexts := openContexts s2 - {audioContext},
                                           audioContextRef := None\<rparr>)
      in s3\<lparr>analyserRef := None, volumeHistoryRef := [], isListening := False,
            isSpeaking := False, audioLevel := 0\<rparr>)"

text \<open>
  The outcome of \<^verbatim>\<open>getUserMedia\<close>: the promise rejects, or it resolves with a new stream;
  \<open>Granted\<close> carries the frequency snapshot that the first \<^verbatim>\<open>analyzeAudio()\<close>, called at the
  end of \<^verbatim>\<open>startListening\<close>, will read.
\<close>

datatype media = Denied | Granted "8 word list"

definition deniedMessage :: string where
  "deniedMessage = ''Microphone access denied. Please allow microphone permissions.''"

text \<open>The \<^verbatim>\<open>catch\<close> block.\<close>

definition catch_block :: "mic \<Rightarrow> mic" where
  "catch_block s = s\<lparr>error := Some deniedMessage, hasPermission := Some False\<rparr>"

text \<open>
  The statements of \<^verbatim>\<open>startListening\<close> between the \<^verbatim>\<open>await\<close> and the call of
  \<^verbatim>\<open>analyzeAudio\<close>: the new stream, audio context and analyser get fresh handles and are
  written to the refs. Whatever the refs held before is overwritten.
\<close>

definition openSession :: "mic \<Rightarrow> mic" where
  "openSession s0 =
     (let stream = nextHandle s0;
          audioContext = nextHandle s0 + 1;
          analyser = nextHandle s0 + 2
      in s0\<lparr>nextHandle := nextHandle s0 + 3,
             liveStreams := insert stream (liveStreams s0),
             mediaStreamRef := Some stream,
             hasPermission := Some True,
             isListening := True,
             openContexts := insert audioContext (openContexts s0),
             audioContextRef := Some audioContext,
             analyserRef := Some analyser\<rparr>)"

text \<open>
  \<^verbatim>\<open>startListening\<close>, taken as one step (the \<^verbatim>\<open>await\<close> is not a point where the model
  interleaves anything). \<open>cSpeaking\<close> is the value of \<^verbatim>\<open>isSpeaking\<close> in the \<^verbatim>\<open>analyzeAudio\<close>
  that this \<^verbatim>\<open>startListening\<close> closed over. The \<^verbatim>\<open>try\<close> covers the whole body, so a throw of
  \<^verbatim>\<open>analyzeAudio\<close> lands in the \<^verbatim>\<open>catch\<close> as well, after the refs have been written.
\<close>

definition startListening :: "bool \<Rightarrow> int \<Rightarrow> media \<Rightarrow> mic \<Rightarrow> mic" where
  "startListening cSpeaking now outcome s =
     (let s0 = s\<lparr>error := None\<rparr>
      in case outcome of
           Denied \<Rightarrow> catch_block s0
         | Granted dataArray \<Rightarrow>
             let s1 = openSession s0
             in (case analyzeAudio cSpeaking now dataArray s1 of
                   Inl e \<Rightarrow> catch_block s1
                 | Inr s2 \<Rightarrow> s2))"

text \<open>
  The animation-frame loop: \<^verbatim>\<open>analyzeAudio\<close> ends with
  \<^verbatim>\<open>requestAnimationFrame(analyzeAudio)\<close>, so the same closure (the same \<open>cSpeaking\<close>) runs
  frame after frame, each frame with its own time and snapshot, until a call throws.
\<close>

fun analysisLoop :: "bool \<Rightarrow> (int \<times> 8 word list) list \<Rightarrow> mic \<Rightarrow> js_error + mic" where
  "analysisLoop cSpeaking [] s = Inr s"
| "analysisLoop cSpeaking ((now, dataArray) # frames) s =
     (case analyzeAudio cSpeaking now dataArray s of
        Inl e \<Rightarrow> Inl e
      | Inr s' \<Rightarrow> analysisLoop cSpeaking frames s')"

section \<open>useMicrophone: runs\<close>

text \<open>
  What can happen to the hook: an animation frame runs \<^verbatim>\<open>analyzeAudio\<close> (with the value
  its closure captured, the time and the snapshot), the pending timeout fires,
  \<^verbatim>\<open>startListening\<close> or \<^verbatim>\<open>stopListening\<close> is called.
\<close>

datatype event =
    Tick bool int "8 word list"
  | TimerFires int
  | Start bool int media
  | Stop

text \<open>
  A configuration is the hook together with the clock (the time of the last event; one
  monotone clock stands for both \<^verbatim>\<open>Date.now()\<close> and the timer's clock) and an observer,
  \<open>quietSince\<close>, which is not part of the program: it is \<open>Some t\<close> when the last sampling
  tick found the smoothed level at or below the threshold and \<open>t\<close> is the time of the
  first tick of that unbroken run of such ticks, and \<open>None\<close> otherwise.
\<close>

record config =
  clock :: int
  hook :: mic
  quietSince :: "int option"

definition observe :: "int \<Rightarrow> 8 word list \<Rightarrow> real list \<Rightarrow> int option \<Rightarrow> int option" where
  "observe now dataArray history q =
     (case normalizedLevel dataArray of
        Inl e \<Rightarrow> q
      | Inr level \<Rightarrow>
          if smoothedLevel (push_history history level) > SILENCE_THRESHOLD then None
          else (case q of None \<Rightarrow> Some now | Some t \<Rightarrow> Some t))"

text \<open>
  An event is refused (\<open>None\<close>) when its time is before the clock, and a timeout fires
  only when one is pending and due. A tick that throws leaves the hook as it was.
\<close>

fun step :: "event \<Rightarrow> config \<Rightarrow> config option" where
  "step (Tick cSpeaking t dataArray) cf =
     (if t < clock cf then None
      else Some \<lparr>clock = t,
                 hook = (case analyzeAudio cSpeaking t dataArray (hook cf) of
                           Inl e \<Rightarrow> hook cf
                         | Inr s \<Rightarrow> s),
                 quietSince = (if analyserRef (hook cf) = None then quietSince cf
                               else observe t dataArray (volumeHistoryRef (hook cf)) (quietSince cf))\<rparr>)"
| "step (TimerFires t) cf =
     (if t < clock cf then None
      else case silenceTimeoutRef (hook cf) of
             None \<Rightarrow> None
           | Some due \<Rightarrow>
               if t < due then None
               else Some \<lparr>clock = t, hook = silenceTimeout t (hook cf),
                          quietSince = quietSince cf\<rparr>)"
| "step (Start cSpeaking t outcome) cf =
     (if t < clock cf then None
      else Some \<lparr>clock = t,
                 hook = startListening cSpeaking t outcome (hook cf),
                 quietSince = (case outcome of
                                 Denied \<Rightarrow> quietSince cf
                               | Granted dataArray \<Rightarrow>
                                   observe t dataArray (volumeHistoryRef (hook cf)) (quietSince cf))\<rparr>)"
| "step Stop cf =
     Some \<lparr>clock = clock cf, hook = stopListening (hook cf), quietSince = None\<rparr>"

fun run :: "event list \<Rightarrow> config \<Rightarrow> config option" where
  "run [] cf = Some cf"
| "run (e # es) cf = (case step e cf of None \<Rightarrow> None | Some cf' \<Rightarrow> run es cf')"

text \<open>The hook as React mounts it, at time \<open>t0\<close>.\<close>

definition mounted :: "int \<Rightarrow> config" where
  "mounted t0 = \<lparr>clock = t0, hook = initial, quietSince = None\<rparr>"

section \<open>RecorderApp\<close>

record app =
  recordingTime :: nat
  isRecording :: bool
  isPaused :: bool
  microphone :: mic

text \<open>
  The timer effect installs a 1000 ms interval exactly when its condition holds and
  removes it when a dependency changes; \<open>secondElapsed\<close> is one period of that interval
  going by: the callback \<^verbatim>\<open>setRecordingTime((prev) => prev + 1)\<close> runs if the interval is
  installed, and nothing runs otherwise.
\<close>

definition intervalInstalled :: "app \<Rightarrow> bool" where
  "intervalInstalled a = (isRecording a \<and> isListening (microphone a) \<and> \<not> isPaused a)"

definition secondElapsed :: "app \<Rightarrow> app" where
  "secondElapsed a =
     (if intervalInstalled a then a\<lparr>recordingTime := recordingTime a + 1\<rparr> else a)"

text \<open>
  The two click handlers, each taken as one step. \<open>cSpeaking\<close>, \<open>now\<close> and \<open>outcome\<close> are
  passed on to \<^verbatim>\<open>startListening\<close>.
\<close>

definition handleRecordingToggle :: "bool \<Rightarrow> int \<Rightarrow> media \<Rightarrow> app \<Rightarrow> app" where
  "handleRecordingToggle cSpeaking now outcome a =
     (if \<not> isRecording a \<and> \<not> isPaused a then
        a\<lparr>microphone := startListening cSpeaking now outcome (microphone a),
          isRecording := True, isPaused := False, recordingTime := 0\<rparr>
      else if isRecording a \<and> \<not> isPaused a then
        a\<lparr>microphone := stopListening (microphone a), isPaused := True\<rparr>
      else if isPaused a then
        a\<lparr>microphone := startListening cSpeaking now outcome (microphone a),
          isPaused := False\<rparr>
      else a)"

definition handleStopRecording :: "app \<Rightarrow> app" where
  "handleStopRecording a =
     a\<lparr>microphone := stopListening (microphone a),
       isRecording := False, isPaused := False, recordingTime := 0\<rparr>"

text \<open>The app as React mounts it.\<close>

definition mountedApp :: app where
  "mountedApp = \<lparr>recordingTime = 0, isRecording = False, isPaused = False, microphone = initial\<rparr>"

section \<open>Invariants of a run\<close>

text \<open>
  Three invariants of the configurations a run reaches. The first ties the pending
  timeout to the observer: a timeout that is due at \<open>due\<close> was armed at \<open>due - 800\<close>, and
  every sampling tick since has found the smoothed level at or below the threshold. The
  second ties it to the onset timestamp: the timestamp is never in the future, and it was
  written no later than the pending timeout was armed. The third bounds the history.
\<close>

definition quiet_inv :: "config \<Rightarrow> bool" where
  "quiet_inv cf =
     ((case quietSince cf of None \<Rightarrow> True | Some q \<Rightarrow> q \<le> clock cf)
      \<and> (case silenceTimeoutRef (hook cf) of
            None \<Rightarrow> True
          | Some due \<Rightarrow>
              (case quietSince cf of None \<Rightarrow> False | Some q \<Rightarrow> q + SILENCE_DELAY \<le> due)))"

definition onset_inv :: "config \<Rightarrow> bool" where
  "onset_inv cf =
     (lastSpeakingTimeRef (hook cf) \<le> clock cf
      \<and> (case silenceTimeoutRef (hook cf) of
            None \<Rightarrow> True
          | Some due \<Rightarrow> lastSpeakingTimeRef (hook cf) + SILENCE_DELAY \<le> due))"

definition history_inv :: "config \<Rightarrow> bool" where
  "history_inv cf = (length (volumeHistoryRef (hook cf)) \<le> VOLUME_HISTORY_SIZE)"

section \<open>Flat snapshots\<close>

lemma foldl_bytes:
  "foldl (\<lambda>a b. a + real_of_int (uint (b::8 word))) a0 bs = a0 + (\<Sum>b\<leftarrow>bs. real_of_int (uint b))"
  by (induction bs arbitrary: a0) simp_all

lemma normalizedLevel_replicate:
  "normalizedLevel (replicate (Suc n) b) = Inr (real_of_int (uint b) / 255)"
proof -
  have "foldl (\<lambda>a b. a + real_of_int (uint (b::8 word))) (real_of_int (uint b)) (replicate n b)
      = real (Suc n) * real_of_int (uint b)"
    using foldl_bytes [of "real_of_int (uint b)" "replicate n b"]
    by (simp add: sum_list_replicate algebra_simps)
  then show ?thesis
    by (simp add: normalizedLevel_def Let_def del: of_nat_Suc)
qed

lemma normalizedLevel_flat: "normalizedLevel (flat b) = Inr (real_of_int (uint b) / 255)"
proof -
  have "frequencyBinCount = Suc 511" by (simp add: frequencyBinCount_def fftSize_def)
  then have "flat b = replicate (Suc 511) b" by (simp only: flat_def)
  then show ?thesis by (simp only: normalizedLevel_replicate)
qed

lemma foldl_squares:
  "foldl (\<lambda>sum b. sum + sample b * sample b) a (replicate n b) = a + real n * (sample b * sample b)"
  by (induction n arbitrary: a) (simp_all add: algebra_simps)

lemma rms_flat: "rms (flat b) = \<bar>sample b\<bar>"
proof -
  have "0 < real frequencyBinCount" by (simp add: frequencyBinCount_def fftSize_def)
  then have "real frequencyBinCount * (sample b * sample b) / real frequencyBinCount = sample b * sample b"
    by simp
  then show ?thesis
    by (simp add: rms_def flat_def foldl_squares)
qed

section \<open>Canvas sizing: results\<close>

text \<open>
  C8. For every container width the recomputed canvas width is
  \<open>min (max (0.95 * w) 320) 800\<close>, so it lies in \<open>[320, 800]\<close>; the height is
  \<open>min (width * (height / width of the props)) 200\<close>, so it is at most \<open>200\<close>; and a
  container of width \<open>1000\<close> with the props \<open>800\<close> by \<open>160\<close> gives \<open>800\<close> by \<open>160\<close>.
\<close>

theorem updateCanvasSize_clamped:
  assumes "pw \<noteq> 0"
  shows "width (updateCanvasSize (Some w) pw ph cur) = min (max (0.95 * w) 320) 800
       \<and> 320 \<le> width (updateCanvasSize (Some w) pw ph cur)
       \<and> width (updateCanvasSize (Some w) pw ph cur) \<le> 800
       \<and> height (updateCanvasSize (Some w) pw ph cur)
           = min (width (updateCanvasSize (Some w) pw ph cur) * (ph / pw)) 200
       \<and> height (updateCanvasSize (Some w) pw ph cur) \<le> 200
       \<and> updateCanvasSize (Some 1000) 800 160 cur = \<lparr>width = 800, height = 160\<rparr>"
  by (simp add: updateCanvasSize_def Let_def mult.commute)

theorem updateCanvasSize_clamped_witness:
  "(800::real) \<noteq> 0
   \<and> updateCanvasSize (Some 100) 800 160 \<lparr>width = 800, height = 160\<rparr> = \<lparr>width = 320, height = 64\<rparr>
   \<and> updateCanvasSize (Some 0) 800 160 \<lparr>width = 800, height = 160\<rparr> = \<lparr>width = 320, height = 64\<rparr>
   \<and> updateCanvasSize (Some 5000) 800 160 \<lparr>width = 800, height = 160\<rparr> = \<lparr>width = 800, height = 160\<rparr>"
proof -
  have nz: "(800::real) \<noteq> 0" by simp
  note a = updateCanvasSize_clamped [OF nz, of 100 160 "\<lparr>width = 800, height = 160\<rparr>"]
  note b = updateCanvasSize_clamped [OF nz, of 0 160 "\<lparr>width = 800, height = 160\<rparr>"]
  note c = updateCanvasSize_clamped [OF nz, of 5000 160 "\<lparr>width = 800, height = 160\<rparr>"]
  have "updateCanvasSize (Some 100) 800 160 \<lparr>width = 800, height = 160\<rparr> = \<lparr>width = 320, height = 64\<rparr>"
    using a by (simp add: updateCanvasSize_def Let_def)
  moreover have "updateCanvasSize (Some 0) 800 160 \<lparr>width = 800, height = 160\<rparr> = \<lparr>width = 320, height = 64\<rparr>"
    using b by (simp add: updateCanvasSize_def Let_def)
  moreover have "updateCanvasSize (Some 5000) 800 160 \<lparr>width = 800, height = 160\<rparr> = \<lparr>width = 800, height = 160\<rparr>"
    using c by (simp add: updateCanvasSize_def Let_def)
  ultimately show ?thesis by simp
qed

section \<open>The frame drawn: results\<close>

lemma rms_silence: "rms (flat 128) = 0"
  by (simp add: rms_flat sample_def)

lemma rms_loud: "rms (flat 255) > silenceThreshold"
  by (simp add: rms_flat sample_def silenceThreshold_def)

text \<open>
  C9, as stated, fails on the overlay variant: with the \<^verbatim>\<open>isSpeaking\<close> prop true and a
  silent snapshot, \<^verbatim>\<open>speaking\<close> is true and the flat line is drawn all the same.
\<close>

theorem drawWaveform_overlay_ignores_prop:
  "drawWaveform_overlay True (Some (flat 128)) True True = Some (True, FlatLine)"
  by (simp add: drawWaveform_overlay_def rms_silence silenceThreshold_def)

text \<open>
  C9, amended. In both variants a frame that is not skipped computes \<^verbatim>\<open>speaking\<close> as the
  disjunction of the local check \<open>rms > 0.01\<close> and the \<^verbatim>\<open>isSpeaking\<close> prop. The first variant
  draws the active waveform exactly when \<^verbatim>\<open>speaking\<close> is true; the overlay variant draws
  its active branch exactly when \<open>rms > 0.01\<close>, whatever the prop.
\<close>

theorem drawWaveform_branch:
  "drawWaveform canvas (Some d) ctx ext =
     (if canvas \<and> ctx
      then Some (rms d > silenceThreshold \<or> ext,
                 if rms d > silenceThreshold \<or> ext then ActiveWave else FlatLine)
      else None)
   \<and> drawWaveform_overlay canvas (Some d) ctx ext =
     (if canvas \<and> ctx
      then Some (rms d > silenceThreshold \<or> ext,
                 if rms d > silenceThreshold then ActiveWave else FlatLine)
      else None)"
  by (simp add: drawWaveform_def drawWaveform_overlay_def Let_def)

theorem drawWaveform_branch_witness:
  "drawWaveform True (Some (flat 255)) True False = Some (True, ActiveWave)
   \<and> drawWaveform True (Some (flat 128)) True True = Some (True, ActiveWave)
   \<and> drawWaveform True (Some (flat 128)) True False = Some (False, FlatLine)
   \<and> drawWaveform_overlay True (Some (flat 255)) True False = Some (True, ActiveWave)
   \<and> drawWaveform_overlay True (Some (flat 128)) True False = Some (False, FlatLine)"
  using drawWaveform_branch [of True "flat 255" True False]
    drawWaveform_branch [of True "flat 128" True True]
    drawWaveform_branch [of True "flat 128" True False]
    rms_loud
  by (simp add: rms_silence silenceThreshold_def)

section \<open>The volume history: results\<close>

lemma push_history_window:
  "length h \<le> VOLUME_HISTORY_SIZE \<Longrightarrow>
   push_history h v = drop (length (h @ [v]) - VOLUME_HISTORY_SIZE) (h @ [v])"
proof (cases "length h = VOLUME_HISTORY_SIZE")
  case True
  then have "h \<noteq> []" by (auto simp: VOLUME_HISTORY_SIZE_def)
  with True show ?thesis
    by (simp add: push_history_def Let_def drop_Suc VOLUME_HISTORY_SIZE_def)
next
  case False
  assume "length h \<le> VOLUME_HISTORY_SIZE"
  with False show ?thesis
    by (simp add: push_history_def Let_def)
qed

lemma push_history_length:
  "length h \<le> VOLUME_HISTORY_SIZE \<Longrightarrow> length (push_history h v) \<le> VOLUME_HISTORY_SIZE"
  by (auto simp: push_history_def Let_def VOLUME_HISTORY_SIZE_def)

text \<open>A tick that samples: the analyser is there and the snapshot is not empty.\<close>

lemma analyzeAudio_samples:
  assumes "analyserRef s \<noteq> None" "normalizedLevel d = Inr v"
  shows "\<exists>s'. analyzeAudio c t d s = Inr s'
           \<and> volumeHistoryRef s' = push_history (volumeHistoryRef s) v
           \<and> audioLevel s' = v
           \<and> analyserRef s' = analyserRef s"
  using assms by (cases "analyserRef s") (simp_all add: analyzeAudio_def Let_def)

text \<open>Keeping the last \<open>n\<close> of a list, then appending and keeping the last \<open>n\<close> again.\<close>

lemma window_append:
  "drop (length (drop (length xs - n) xs @ ys) - n) (drop (length xs - n) xs @ ys)
     = drop (length (xs @ ys) - n) (xs @ ys)"
proof (cases "length xs \<le> n")
  case True
  then show ?thesis by simp
next
  case False
  then have n: "n < length xs" by simp
  have "drop (length (xs @ ys) - n) (xs @ ys) = drop (length ys + (length xs - n)) (xs @ ys)"
    using n by (simp add: add.commute)
  also have "\<dots> = drop (length ys) (drop (length xs - n) (xs @ ys))"
    by (simp only: drop_drop)
  also have "\<dots> = drop (length ys) (drop (length xs - n) xs @ ys)"
    by simp
  finally show ?thesis using n by simp
qed

lemma analysisLoop_window:
  assumes "analyserRef s \<noteq> None" "length (volumeHistoryRef s) \<le> VOLUME_HISTORY_SIZE"
    "map (\<lambda>f. normalizedLevel (snd f)) frames = map Inr vs"
  shows "\<exists>s'. analysisLoop c frames s = Inr s'
     \<and> volumeHistoryRef s' =
         drop (length (volumeHistoryRef s @ vs) - VOLUME_HISTORY_SIZE) (volumeHistoryRef s @ vs)"
  using assms
proof (induction frames arbitrary: s vs)
  case Nil
  then show ?case by simp
next
  case (Cons f frames)
  obtain t d where f: "f = (t, d)" by (cases f)
  from Cons.prems(3) obtain v vs' where vs: "vs = v # vs'" and v: "normalizedLevel d = Inr v"
    and rest: "map (\<lambda>f. normalizedLevel (snd f)) frames = map Inr vs'"
    by (cases vs) (auto simp: f)
  from analyzeAudio_samples [OF Cons.prems(1) v, of c t]
  obtain s1 where s1: "analyzeAudio c t d s = Inr s1"
    "volumeHistoryRef s1 = push_history (volumeHistoryRef s) v" "analyserRef s1 = analyserRef s"
    by blast
  have len1: "length (volumeHistoryRef s1) \<le> VOLUME_HISTORY_SIZE"
    using s1(2) Cons.prems(2) by (simp add: push_history_length)
  have an1: "analyserRef s1 \<noteq> None" using s1(3) Cons.prems(1) by simp
  from Cons.IH [OF an1 len1 rest] obtain s' where s':
    "analysisLoop c frames s1 = Inr s'"
    "volumeHistoryRef s' =
       drop (length (volumeHistoryRef s1 @ vs') - VOLUME_HISTORY_SIZE) (volumeHistoryRef s1 @ vs')"
    by blast
  have "volumeHistoryRef s' =
      drop (length ((volumeHistoryRef s @ [v]) @ vs') - VOLUME_HISTORY_SIZE)
        ((volumeHistoryRef s @ [v]) @ vs')"
    unfolding s'(2) s1(2) push_history_window [OF Cons.prems(2)] by (rule window_append)
  then have "volumeHistoryRef s' =
      drop (length (volumeHistoryRef s @ vs) - VOLUME_HISTORY_SIZE) (volumeHistoryRef s @ vs)"
    by (simp add: vs)
  with s'(1) s1(1) show ?case by (simp add: f)
qed

section \<open>Evaluating the hook on concrete inputs\<close>

lemmas hook_defs = mounted_def initial_def startListening_def openSession_def catch_block_def
  analyzeAudio_def normalizedLevel_flat push_history_def smoothedLevel_def silenceTimeout_def
  observe_def stopListening_def Let_def SILENCE_THRESHOLD_def SILENCE_DELAY_def
  VOLUME_HISTORY_SIZE_def MIN_SPEAKING_DURATION_def

section \<open>One call of analyzeAudio, by cases\<close>

lemma analyzeAudio_cases:
  assumes "analyzeAudio c t d s = Inr s'"
  shows "(analyserRef s = None \<and> s' = s)
       \<or> (\<exists>v. analyserRef s \<noteq> None \<and> normalizedLevel d = Inr v
            \<and> volumeHistoryRef s' = push_history (volumeHistoryRef s) v
            \<and> smoothedLevel (push_history (volumeHistoryRef s) v) > SILENCE_THRESHOLD
            \<and> silenceTimeoutRef s' = None
            \<and> isSpeaking s' = (if c then isSpeaking s else True)
            \<and> lastSpeakingTimeRef s' = (if c then lastSpeakingTimeRef s else t))
       \<or> (\<exists>v. analyserRef s \<noteq> None \<and> normalizedLevel d = Inr v
            \<and> volumeHistoryRef s' = push_history (volumeHistoryRef s) v
            \<and> \<not> smoothedLevel (push_history (volumeHistoryRef s) v) > SILENCE_THRESHOLD
            \<and> silenceTimeoutRef s' =
                (if c \<and> silenceTimeoutRef s = None then Some (t + SILENCE_DELAY)
                 else silenceTimeoutRef s)
            \<and> isSpeaking s' = isSpeaking s
            \<and> lastSpeakingTimeRef s' = lastSpeakingTimeRef s)"
  using assms
  by (cases "analyserRef s"; cases "normalizedLevel d")
     (auto simp: analyzeAudio_def Let_def split: if_splits)

lemma analyzeAudio_throws:
  "analyzeAudio c t d s = Inl e \<Longrightarrow> analyserRef s \<noteq> None \<and> normalizedLevel d = Inl e"
  by (cases "analyserRef s"; cases "normalizedLevel d") (auto simp: analyzeAudio_def Let_def)

lemma tick_history_inv:
  assumes "history_inv cf" "step (Tick c t d) cf = Some cf'"
  shows "history_inv cf'"
proof (cases "analyzeAudio c t d (hook cf)")
  case (Inl e)
  with assms show ?thesis
    by (auto simp: history_inv_def split: if_splits)
next
  case (Inr s')
  from analyzeAudio_cases [OF Inr] assms Inr show ?thesis
    by (auto simp: history_inv_def push_history_length split: if_splits)
qed

text \<open>
  A granted \<^verbatim>\<open>startListening\<close> is a tick on the opened session, up to what the \<^verbatim>\<open>catch\<close>
  block writes; this carries an invariant of ticks over to it.
\<close>

lemma start_granted_as_tick:
  assumes "step (Start c t (Granted d)) cf = Some cf'"
  obtains s1 cf2 where
    "s1 = openSession ((hook cf)\<lparr>error := None\<rparr>)"
    "step (Tick c t d) (cf\<lparr>hook := s1\<rparr>) = Some cf2"
    "clock cf' = clock cf2" "quietSince cf' = quietSince cf2"
    "hook cf' = hook cf2 \<or> hook cf' = catch_block (hook cf2)"
proof -
  define s1 where "s1 = openSession ((hook cf)\<lparr>error := None\<rparr>)"
  have s1: "analyserRef s1 \<noteq> None" "volumeHistoryRef s1 = volumeHistoryRef (hook cf)"
    by (simp_all add: s1_def openSession_def Let_def)
  have sl: "startListening c t (Granted d) (hook cf) =
      (case analyzeAudio c t d s1 of Inl e \<Rightarrow> catch_block s1 | Inr s2 \<Rightarrow> s2)"
    unfolding s1_def by (simp add: startListening_def Let_def)
  from assms have t: "\<not> t < clock cf" by (simp split: if_splits)
  define cf2 where "cf2 = \<lparr>clock = t,
      hook = (case analyzeAudio c t d s1 of Inl e \<Rightarrow> s1 | Inr s \<Rightarrow> s),
      quietSince = observe t d (volumeHistoryRef s1) (quietSince cf)\<rparr>"
  have 1: "step (Tick c t d) (cf\<lparr>hook := s1\<rparr>) = Some cf2"
    using t s1 by (auto simp: cf2_def split: sum.splits)
  have 2: "clock cf' = clock cf2" "quietSince cf' = quietSince cf2"
    using assms t s1 by (auto simp: cf2_def)
  have 3: "hook cf' = hook cf2 \<or> hook cf' = catch_block (hook cf2)"
    using assms t by (auto simp: cf2_def sl split: sum.splits)
  from that [OF s1_def 1 2 3] show ?thesis .
qed

lemma step_history_inv:
  assumes "history_inv cf" "step e cf = Some cf'"
  shows "history_inv cf'"
proof (cases e)
  case (Tick c t d)
  with assms show ?thesis by (simp only: tick_history_inv)
next
  case (TimerFires t)
  with assms show ?thesis
    by (auto simp: history_inv_def silenceTimeout_def Let_def split: if_splits option.splits)
next
  case (Start c t m)
  show ?thesis
  proof (cases m)
    case Denied
    with Start assms show ?thesis
      by (auto simp: history_inv_def startListening_def catch_block_def Let_def split: if_splits)
  next
    case (Granted d)
    with Start assms(2) have st: "step (Start c t (Granted d)) cf = Some cf'" by simp
    from st obtain s1 cf2 where
      a: "s1 = openSession ((hook cf)\<lparr>error := None\<rparr>)"
        "step (Tick c t d) (cf\<lparr>hook := s1\<rparr>) = Some cf2"
        "hook cf' = hook cf2 \<or> hook cf' = catch_block (hook cf2)"
      by (rule start_granted_as_tick)
    have "history_inv (cf\<lparr>hook := s1\<rparr>)"
      using assms(1) by (simp add: history_inv_def a(1) openSession_def Let_def)
    from tick_history_inv [OF this a(2)] a(3) show ?thesis
      by (auto simp: history_inv_def catch_block_def)
  qed
next
  case Stop
  with assms show ?thesis
    by (auto simp: history_inv_def stopListening_def Let_def split: option.splits)
qed

lemma run_history_inv: "history_inv cf \<Longrightarrow> run evs cf = Some cf' \<Longrightarrow> history_inv cf'"
proof (induction evs arbitrary: cf)
  case Nil
  then show ?case by simp
next
  case (Cons e evs)
  then show ?case by (auto split: option.splits dest: step_history_inv)
qed

lemma mounted_history_inv: "history_inv (mounted t0)"
  by (simp add: history_inv_def mounted_def initial_def)

text \<open>
  C2. Frames that sample push their levels \<open>vs\<close> in order, and from a history of at most
  ten samples the loop leaves exactly the last ten of the old history followed by \<open>vs\<close>:
  from an empty history, the most recent \<open>min n 10\<close> of the \<open>n\<close> samples pushed, oldest
  first. In every configuration that a run from the mounted hook reaches, the history
  holds at most ten samples.
\<close>

theorem volume_history_window:
  "(analyserRef s \<noteq> None \<and> length (volumeHistoryRef s) \<le> VOLUME_HISTORY_SIZE
      \<and> map (\<lambda>f. normalizedLevel (snd f)) frames = map Inr vs \<longrightarrow>
      (\<exists>s'. analysisLoop c frames s = Inr s'
         \<and> volumeHistoryRef s' =
             drop (length (volumeHistoryRef s @ vs) - VOLUME_HISTORY_SIZE) (volumeHistoryRef s @ vs)
         \<and> length (volumeHistoryRef s') = min (length (volumeHistoryRef s @ vs)) VOLUME_HISTORY_SIZE
         \<and> (volumeHistoryRef s = [] \<longrightarrow>
              volumeHistoryRef s' = drop (length vs - VOLUME_HISTORY_SIZE) vs
            \<and> length (volumeHistoryRef s') = min (length vs) VOLUME_HISTORY_SIZE)))
   \<and> (run evs (mounted t0) = Some cf \<longrightarrow> length (volumeHistoryRef (hook cf)) \<le> VOLUME_HISTORY_SIZE)"
proof (intro conjI impI)
  assume a: "analyserRef s \<noteq> None \<and> length (volumeHistoryRef s) \<le> VOLUME_HISTORY_SIZE
      \<and> map (\<lambda>f. normalizedLevel (snd f)) frames = map Inr vs"
  then obtain s' where s': "analysisLoop c frames s = Inr s'"
    "volumeHistoryRef s' =
       drop (length (volumeHistoryRef s @ vs) - VOLUME_HISTORY_SIZE) (volumeHistoryRef s @ vs)"
    using analysisLoop_window [of s frames vs c] by blast
  have "length (volumeHistoryRef s') =
      length (volumeHistoryRef s @ vs) - (length (volumeHistoryRef s @ vs) - VOLUME_HISTORY_SIZE)"
    by (simp only: s'(2) length_drop)
  then have "length (volumeHistoryRef s') = min (length (volumeHistoryRef s @ vs)) VOLUME_HISTORY_SIZE"
    by arith
  with s' show "\<exists>s'. analysisLoop c frames s = Inr s'
         \<and> volumeHistoryRef s' =
             drop (length (volumeHistoryRef s @ vs) - VOLUME_HISTORY_SIZE) (volumeHistoryRef s @ vs)
         \<and> length (volumeHistoryRef s') = min (length (volumeHistoryRef s @ vs)) VOLUME_HISTORY_SIZE
         \<and> (volumeHistoryRef s = [] \<longrightarrow>
              volumeHistoryRef s' = drop (length vs - VOLUME_HISTORY_SIZE) vs
            \<and> length (volumeHistoryRef s') = min (length vs) VOLUME_HISTORY_SIZE)"
    by auto
next
  assume "run evs (mounted t0) = Some cf"
  from run_history_inv [OF mounted_history_inv this]
  show "length (volumeHistoryRef (hook cf)) \<le> VOLUME_HISTORY_SIZE"
    by (simp add: history_inv_def)
qed

theorem volume_history_window_witness:
  "\<exists>s'. analysisLoop False
          [(0, flat 0), (16, flat 255), (32, flat 0), (48, flat 255), (64, flat 0), (80, flat 255),
           (96, flat 0), (112, flat 255), (128, flat 0), (144, flat 255), (160, flat 51)]
          (openSession initial) = Inr s'
       \<and> volumeHistoryRef s' = [1, 0, 1, 0, 1, 0, 1, 0, 1, 1 / 5]"
proof -
  define s0 where "s0 = openSession initial"
  define frames :: "(int \<times> 8 word list) list" where
    "frames = [(0, flat 0), (16, flat 255), (32, flat 0), (48, flat 255), (64, flat 0), (80, flat 255),
               (96, flat 0), (112, flat 255), (128, flat 0), (144, flat 255), (160, flat 51)]"
  define vs :: "real list" where "vs = [0, 1, 0, 1, 0, 1, 0, 1, 0, 1, 1 / 5]"
  have e: "volumeHistoryRef s0 = []"
    by (simp add: s0_def openSession_def initial_def Let_def)
  have h: "analyserRef s0 \<noteq> None \<and> length (volumeHistoryRef s0) \<le> VOLUME_HISTORY_SIZE
      \<and> map (\<lambda>f. normalizedLevel (snd f)) frames = map Inr vs"
    by (simp add: s0_def frames_def vs_def openSession_def initial_def normalizedLevel_flat Let_def)
  from volume_history_window [of s0 frames vs False] h e
  obtain s' where r: "analysisLoop False frames s0 = Inr s'"
    and w: "volumeHistoryRef s' = drop (length vs - VOLUME_HISTORY_SIZE) vs"
    by blast
  from w have "volumeHistoryRef s' = [1, 0, 1, 0, 1, 0, 1, 0, 1, 1 / 5]"
    by (simp add: vs_def VOLUME_HISTORY_SIZE_def)
  with r show ?thesis unfolding s0_def frames_def by blast
qed

section \<open>The exposed level: results\<close>

lemma byte_bounds: "0 \<le> real_of_int (uint (b::8 word)) \<and> real_of_int (uint b) \<le> 255"
proof -
  have "uint b < 2 ^ 8" using uint_bounded [of b] by simp
  then have "uint b \<le> 255" by simp
  then have "real_of_int (uint b) \<le> real_of_int 255" by (simp only: of_int_le_iff)
  moreover have "real_of_int 0 \<le> real_of_int (uint b)" by (simp only: of_int_le_iff) simp
  ultimately show ?thesis by simp
qed

lemma sum_bytes_bounds:
  "0 \<le> (\<Sum>b\<leftarrow>bs. real_of_int (uint (b::8 word)))
   \<and> (\<Sum>b\<leftarrow>bs. real_of_int (uint b)) \<le> 255 * real (length bs)"
proof (induction bs)
  case Nil
  then show ?case by simp
next
  case (Cons b bs)
  with byte_bounds [of b] show ?case by (simp add: algebra_simps)
qed

lemma normalizedLevel_range:
  assumes "normalizedLevel d = Inr v"
  shows "0 \<le> v \<and> v \<le> 1"
proof -
  from assms obtain b0 bs where d: "d = b0 # bs" by (cases d) (auto simp: normalizedLevel_def)
  have v: "v = (\<Sum>b\<leftarrow>d. real_of_int (uint b)) / real (length d) / 255"
    using assms foldl_bytes [of "real_of_int (uint b0)" bs]
    by (simp add: d normalizedLevel_def Let_def)
  have pos: "0 < real (length d)" by (simp add: d)
  from sum_bytes_bounds [of d] have "0 \<le> (\<Sum>b\<leftarrow>d. real_of_int (uint b))"
    and "(\<Sum>b\<leftarrow>d. real_of_int (uint b)) \<le> 255 * real (length d)" by simp_all
  then show ?thesis using pos unfolding v by (simp add: divide_simps)
qed

lemma smoothed_single: "smoothedLevel (push_history [] v) = v"
  by (simp add: smoothedLevel_def push_history_def Let_def VOLUME_HISTORY_SIZE_def)

text \<open>
  C3, as stated, fails: after a first silent frame, a frame at full scale exposes
  \<open>audioLevel = 1\<close> while the mean of the history is \<open>1 / 2\<close>.
\<close>

theorem audioLevel_not_smoothed:
  "map_option (\<lambda>cf. (audioLevel (hook cf), smoothedLevel (volumeHistoryRef (hook cf))))
     (run [Start False 0 (Granted (flat 0)), Tick False 16 (flat 255)] (mounted 0)) = Some (1, 1 / 2)"
  by (simp add: hook_defs)

text \<open>
  C3, amended. A tick that samples exposes as \<open>audioLevel\<close> the raw level of that tick, the
  mean of the snapshot's bytes over \<open>255\<close>, which lies in \<open>[0, 1]\<close>; the same level is
  pushed to the history, whose mean is only compared with the threshold. The two agree
  when the history was empty before the tick.
\<close>

theorem audioLevel_is_raw_sample:
  assumes "analyserRef s \<noteq> None" and "normalizedLevel d = Inr v"
  shows "\<exists>s'. analyzeAudio c t d s = Inr s'
           \<and> audioLevel s' = v \<and> 0 \<le> audioLevel s' \<and> audioLevel s' \<le> 1
           \<and> volumeHistoryRef s' = push_history (volumeHistoryRef s) v
           \<and> (if volumeHistoryRef s = []
                then audioLevel s' = smoothedLevel (volumeHistoryRef s') else True)"
  using analyzeAudio_samples [OF assms, of c t] normalizedLevel_range [OF assms(2)]
  by (auto simp: smoothed_single)

theorem audioLevel_is_raw_sample_witness:
  "\<exists>s'. analyzeAudio False 16 (flat 51) (startListening False 0 (Granted (flat 0)) initial) = Inr s'
       \<and> audioLevel s' = 1 / 5 \<and> volumeHistoryRef s' = [0, 1 / 5]
       \<and> smoothedLevel (volumeHistoryRef s') = 1 / 10"
proof -
  define s0 where "s0 = startListening False 0 (Granted (flat 0)) initial"
  have a: "analyserRef s0 \<noteq> None" and h: "volumeHistoryRef s0 = [0]"
    by (simp_all add: s0_def hook_defs)
  have v: "normalizedLevel (flat 51) = Inr (1 / 5)"
    by (simp add: normalizedLevel_flat)
  from audioLevel_is_raw_sample [OF a v, of False 16] obtain s' where
    "analyzeAudio False 16 (flat 51) s0 = Inr s'" "audioLevel s' = 1 / 5"
    "volumeHistoryRef s' = push_history (volumeHistoryRef s0) (1 / 5)"
    by blast
  then show ?thesis unfolding s0_def [symmetric]
    by (auto simp: h push_history_def smoothedLevel_def Let_def VOLUME_HISTORY_SIZE_def)
qed

section \<open>stopListening and startListening: results\<close>

text \<open>
  C4. From every state, \<^verbatim>\<open>stopListening\<close> twice is \<^verbatim>\<open>stopListening\<close> once, and after it the
  level is \<open>0\<close>, the hook is neither speaking nor listening, the history is empty, the
  analyser handle is null and no timeout is pending: the timeout cannot fire.
\<close>

theorem stopListening_idempotent:
  "stopListening (stopListening s) = stopListening s
   \<and> audioLevel (stopListening s) = 0
   \<and> \<not> isSpeaking (stopListening s)
   \<and> \<not> isListening (stopListening s)
   \<and> volumeHistoryRef (stopListening s) = []
   \<and> analyserRef (stopListening s) = None
   \<and> silenceTimeoutRef (stopListening s) = None
   \<and> step (TimerFires t) \<lparr>clock = k, hook = stopListening s, quietSince = q\<rparr> = None"
  by (simp add: stopListening_def Let_def split: option.splits)

theorem stopListening_idempotent_witness:
  "\<exists>cf. run [Start False 0 (Granted (flat 2)), Tick True 16 (flat 0)] (mounted 0) = Some cf
      \<and> isListening (hook cf) \<and> isSpeaking (hook cf) \<and> silenceTimeoutRef (hook cf) = Some 816
      \<and> stopListening (stopListening (hook cf)) = stopListening (hook cf)
      \<and> \<not> isListening (stopListening (hook cf))
      \<and> silenceTimeoutRef (stopListening (hook cf)) = None
      \<and> stopListening (stopListening initial) = stopListening initial"
proof -
  obtain cf where r: "run [Start False 0 (Granted (flat 2)), Tick True 16 (flat 0)] (mounted 0) = Some cf"
    and c: "isListening (hook cf)" "isSpeaking (hook cf)" "silenceTimeoutRef (hook cf) = Some 816"
    by (simp add: hook_defs)
  from r c stopListening_idempotent [of "hook cf"] stopListening_idempotent [of initial]
  show ?thesis by blast
qed

text \<open>
  C5. When \<^verbatim>\<open>getUserMedia\<close> rejects, \<^verbatim>\<open>startListening\<close> sets \<open>hasPermission\<close> to false and the
  error message, and opens no session: \<open>isListening\<close>, the three handles and the live
  streams and contexts are what they were, so from the idle hook the hook is still not
  listening and the handles are still null.
\<close>

theorem startListening_denied:
  "hasPermission (startListening c t Denied s) = Some False
   \<and> error (startListening c t Denied s) = Some deniedMessage
   \<and> isListening (startListening c t Denied s) = isListening s
   \<and> mediaStreamRef (startListening c t Denied s) = mediaStreamRef s
   \<and> audioContextRef (startListening c t Denied s) = audioContextRef s
   \<and> analyserRef (startListening c t Denied s) = analyserRef s
   \<and> liveStreams (startListening c t Denied s) = liveStreams s
   \<and> openContexts (startListening c t Denied s) = openContexts s
   \<and> startListening c t Denied s = s\<lparr>error := Some deniedMessage, hasPermission := Some False\<rparr>"
  by (simp add: startListening_def catch_block_def Let_def)

theorem startListening_denied_witness:
  "hasPermission (startListening False 0 Denied initial) = Some False
   \<and> error (startListening False 0 Denied initial) \<noteq> None
   \<and> \<not> isListening (startListening False 0 Denied initial)
   \<and> mediaStreamRef (startListening False 0 Denied initial) = None
   \<and> audioContextRef (startListening False 0 Denied initial) = None
   \<and> analyserRef (startListening False 0 Denied initial) = None
   \<and> liveStreams (startListening False 0 Denied initial) = {}"
  using startListening_denied [of False 0 initial]
  by (simp add: initial_def)

text \<open>
  C6 fails on the code. Two granted calls of \<^verbatim>\<open>startListening\<close> in a row leave two live
  streams and two open audio contexts; the refs hold the second session only, so
  \<^verbatim>\<open>stopListening\<close> releases the second and the first stays live.
\<close>

theorem startListening_twice_leaks:
  "mediaStreamRef (startListening False 1 (Granted (flat 0)) (startListening False 0 (Granted (flat 0)) initial)) = Some 5
   \<and> liveStreams (startListening False 1 (Granted (flat 0)) (startListening False 0 (Granted (flat 0)) initial)) = {5, 1}
   \<and> openContexts (startListening False 1 (Granted (flat 0)) (startListening False 0 (Granted (flat 0)) initial)) = {6, 2}
   \<and> liveStreams (stopListening
        (startListening False 1 (Granted (flat 0)) (startListening False 0 (Granted (flat 0)) initial))) = {1}
   \<and> openContexts (stopListening
        (startListening False 1 (Granted (flat 0)) (startListening False 0 (Granted (flat 0)) initial))) = {2}"
  by (simp add: hook_defs eval_nat_numeral)

section \<open>The recording timer: results\<close>

lemma paused_frozen: "isPaused a \<Longrightarrow> (secondElapsed ^^ n) a = a"
  by (induction n) (simp_all add: secondElapsed_def intervalInstalled_def)

text \<open>
  C7. A period of the interval adds one to the timer exactly when the app is recording,
  the hook is listening and the app is not paused, and adds nothing otherwise. The
  toggle in the recording state pauses and leaves the timer at its value, where it stays
  however many periods go by. The stop control sets the timer to \<open>0\<close>, and so does the
  toggle in the idle state (a fresh start).
\<close>

theorem recording_timer:
  "recordingTime (secondElapsed a) =
      recordingTime a + (if isRecording a \<and> isListening (microphone a) \<and> \<not> isPaused a then 1 else 0)
   \<and> (if isRecording a \<and> \<not> isPaused a
       then isPaused (handleRecordingToggle c t m a)
          \<and> recordingTime (handleRecordingToggle c t m a) = recordingTime a
          \<and> (secondElapsed ^^ n) (handleRecordingToggle c t m a) = handleRecordingToggle c t m a
       else True)
   \<and> recordingTime (handleStopRecording a) = 0
   \<and> \<not> isRecording (handleStopRecording a) \<and> \<not> isPaused (handleStopRecording a)
   \<and> (if \<not> isRecording a \<and> \<not> isPaused a
       then recordingTime (handleRecordingToggle c t m a) = 0
          \<and> isRecording (handleRecordingToggle c t m a)
          \<and> \<not> isPaused (handleRecordingToggle c t m a)
       else True)"
  by (auto simp: secondElapsed_def intervalInstalled_def handleRecordingToggle_def
      handleStopRecording_def intro!: paused_frozen)

theorem recording_timer_witness:
  "recordingTime (secondElapsed (secondElapsed (handleRecordingToggle False 0 (Granted (flat 0)) mountedApp))) = 2
   \<and> isPaused (handleRecordingToggle False 9 Denied
        (secondElapsed (secondElapsed (handleRecordingToggle False 0 (Granted (flat 0)) mountedApp))))
   \<and> recordingTime ((secondElapsed ^^ 5) (handleRecordingToggle False 9 Denied
        (secondElapsed (secondElapsed (handleRecordingToggle False 0 (Granted (flat 0)) mountedApp))))) = 2
   \<and> recordingTime (handleStopRecording
        (secondElapsed (secondElapsed (handleRecordingToggle False 0 (Granted (flat 0)) mountedApp)))) = 0
   \<and> recordingTime (secondElapsed (handleRecordingToggle False 0 Denied mountedApp)) = 0"
proof -
  define a1 where "a1 = handleRecordingToggle False 0 (Granted (flat 0)) mountedApp"
  have a1: "isRecording a1" "isListening (microphone a1)" "\<not> isPaused a1" "recordingTime a1 = 0"
    by (simp_all add: a1_def handleRecordingToggle_def mountedApp_def hook_defs)
  define a2 where "a2 = secondElapsed (secondElapsed a1)"
  have s1: "isRecording (secondElapsed a1)" "isListening (microphone (secondElapsed a1))"
    "\<not> isPaused (secondElapsed a1)"
    using a1 by (simp_all add: secondElapsed_def intervalInstalled_def)
  have a2: "isRecording a2" "\<not> isPaused a2" "recordingTime a2 = 2"
    using recording_timer [of a1] recording_timer [of "secondElapsed a1"] a1 s1
    by (simp_all add: a2_def secondElapsed_def intervalInstalled_def)
  define b1 where "b1 = handleRecordingToggle False 0 Denied mountedApp"
  have b1: "isRecording b1" "\<not> isListening (microphone b1)" "recordingTime b1 = 0"
    by (simp_all add: b1_def handleRecordingToggle_def mountedApp_def hook_defs)
  from recording_timer [of a2 False 9 Denied 5] recording_timer [of b1] a2 b1
  show ?thesis unfolding a2_def a1_def b1_def by simp
qed

section \<open>The speaking flag: results\<close>

text \<open>The two invariants on the timeout, read as implications.\<close>

lemma quiet_inv_iff:
  "quiet_inv cf \<longleftrightarrow>
     (\<forall>q. quietSince cf = Some q \<longrightarrow> q \<le> clock cf)
     \<and> (\<forall>due. silenceTimeoutRef (hook cf) = Some due \<longrightarrow>
            (\<exists>q. quietSince cf = Some q \<and> q + SILENCE_DELAY \<le> due))"
  by (auto simp: quiet_inv_def split: option.splits)

lemma onset_inv_iff:
  "onset_inv cf \<longleftrightarrow>
     lastSpeakingTimeRef (hook cf) \<le> clock cf
     \<and> (\<forall>due. silenceTimeoutRef (hook cf) = Some due \<longrightarrow>
            lastSpeakingTimeRef (hook cf) + SILENCE_DELAY \<le> due)"
  by (auto simp: onset_inv_def split: option.splits)

lemma tick_quiet_inv:
  assumes "quiet_inv cf" "step (Tick c t d) cf = Some cf'"
  shows "quiet_inv cf'"
proof (cases "analyzeAudio c t d (hook cf)")
  case (Inl e)
  from analyzeAudio_throws [OF Inl] assms Inl show ?thesis
    by (auto simp: quiet_inv_iff observe_def split: if_splits option.splits)
next
  case (Inr s')
  from analyzeAudio_cases [OF Inr] assms Inr show ?thesis
    by (auto simp: quiet_inv_iff observe_def split: if_splits option.splits)
qed

lemma tick_onset_inv:
  assumes "onset_inv cf" "step (Tick c t d) cf = Some cf'"
  shows "onset_inv cf'"
proof (cases "analyzeAudio c t d (hook cf)")
  case (Inl e)
  with assms show ?thesis
    by (auto simp: onset_inv_iff split: if_splits option.splits)
next
  case (Inr s')
  from analyzeAudio_cases [OF Inr] assms Inr show ?thesis
    by (auto simp: onset_inv_iff SILENCE_DELAY_def split: if_splits option.splits)
qed

lemma tick_keeps_speaking:
  assumes "step (Tick c t d) cf = Some cf'" "isSpeaking (hook cf)"
  shows "isSpeaking (hook cf')"
proof (cases "analyzeAudio c t d (hook cf)")
  case (Inl e)
  with assms show ?thesis by (auto split: if_splits)
next
  case (Inr s')
  from analyzeAudio_cases [OF Inr] assms Inr show ?thesis
    by (auto split: if_splits)
qed

lemma step_quiet_inv:
  assumes "quiet_inv cf" "step e cf = Some cf'"
  shows "quiet_inv cf'"
proof (cases e)
  case (Tick c t d)
  with assms show ?thesis by (simp only: tick_quiet_inv)
next
  case (TimerFires t)
  with assms show ?thesis
    by (auto simp: quiet_inv_iff silenceTimeout_def Let_def split: if_splits option.splits)
next
  case (Start c t m)
  show ?thesis
  proof (cases m)
    case Denied
    with Start assms show ?thesis
      by (auto simp: quiet_inv_iff startListening_def catch_block_def Let_def split: if_splits)
  next
    case (Granted d)
    with Start assms(2) have st: "step (Start c t (Granted d)) cf = Some cf'" by simp
    from st obtain s1 cf2 where
      a: "s1 = openSession ((hook cf)\<lparr>error := None\<rparr>)"
        "step (Tick c t d) (cf\<lparr>hook := s1\<rparr>) = Some cf2"
        "clock cf' = clock cf2" "quietSince cf' = quietSince cf2"
        "hook cf' = hook cf2 \<or> hook cf' = catch_block (hook cf2)"
      by (rule start_granted_as_tick)
    have "quiet_inv (cf\<lparr>hook := s1\<rparr>)"
      using assms(1) by (simp add: quiet_inv_iff a(1) openSession_def Let_def)
    from tick_quiet_inv [OF this a(2)] a(3,4,5) show ?thesis
      by (auto simp: quiet_inv_iff catch_block_def)
  qed
next
  case Stop
  with assms show ?thesis
    by (auto simp: quiet_inv_iff stopListening_def Let_def split: option.splits)
qed

lemma step_onset_inv:
  assumes "onset_inv cf" "step e cf = Some cf'"
  shows "onset_inv cf'"
proof (cases e)
  case (Tick c t d)
  with assms show ?thesis by (simp only: tick_onset_inv)
next
  case (TimerFires t)
  with assms show ?thesis
    by (auto simp: onset_inv_iff silenceTimeout_def Let_def split: if_splits option.splits)
next
  case (Start c t m)
  show ?thesis
  proof (cases m)
    case Denied
    with Start assms show ?thesis
      by (auto simp: onset_inv_iff startListening_def catch_block_def Let_def split: if_splits)
  next
    case (Granted d)
    with Start assms(2) have st: "step (Start c t (Granted d)) cf = Some cf'" by simp
    from st obtain s1 cf2 where
      a: "s1 = openSession ((hook cf)\<lparr>error := None\<rparr>)"
        "step (Tick c t d) (cf\<lparr>hook := s1\<rparr>) = Some cf2"
        "clock cf' = clock cf2" "quietSince cf' = quietSince cf2"
        "hook cf' = hook cf2 \<or> hook cf' = catch_block (hook cf2)"
      by (rule start_granted_as_tick)
    have "onset_inv (cf\<lparr>hook := s1\<rparr>)"
      using assms(1) by (simp add: onset_inv_iff a(1) openSession_def Let_def)
    from tick_onset_inv [OF this a(2)] a(3,4,5) show ?thesis
      by (auto simp: onset_inv_iff catch_block_def)
  qed
next
  case Stop
  with assms show ?thesis
    by (auto simp: onset_inv_iff stopListening_def Let_def split: option.splits)
qed

lemma run_quiet_inv: "quiet_inv cf \<Longrightarrow> run evs cf = Some cf' \<Longrightarrow> quiet_inv cf'"
proof (induction evs arbitrary: cf)
  case Nil
  then show ?case by simp
next
  case (Cons e evs)
  then show ?case by (auto split: option.splits dest: step_quiet_inv)
qed

lemma run_onset_inv: "onset_inv cf \<Longrightarrow> run evs cf = Some cf' \<Longrightarrow> onset_inv cf'"
proof (induction evs arbitrary: cf)
  case Nil
  then show ?case by simp
next
  case (Cons e evs)
  then show ?case by (auto split: option.splits dest: step_onset_inv)
qed

lemma mounted_quiet_inv: "quiet_inv (mounted t0)"
  by (simp add: quiet_inv_iff mounted_def initial_def)

lemma mounted_onset_inv: "0 \<le> t0 \<Longrightarrow> onset_inv (mounted t0)"
  by (simp add: onset_inv_iff mounted_def initial_def)

text \<open>Only \<^verbatim>\<open>stopListening\<close> and the timeout's callback ever clear the flag.\<close>

lemma speaking_cleared_by:
  assumes "step e cf = Some cf'" "isSpeaking (hook cf)" "\<not> isSpeaking (hook cf')" "e \<noteq> Stop"
  shows "\<exists>t due. e = TimerFires t \<and> silenceTimeoutRef (hook cf) = Some due \<and> due \<le> t
            \<and> lastSpeakingTimeRef (hook cf) + MIN_SPEAKING_DURATION \<le> t"
proof (cases e)
  case (Tick c t d)
  with assms tick_keeps_speaking [of c t d cf cf'] show ?thesis by simp
next
  case (TimerFires t)
  with assms show ?thesis
    by (auto simp: silenceTimeout_def Let_def split: if_splits option.splits)
next
  case (Start c t m)
  show ?thesis
  proof (cases m)
    case Denied
    with Start assms show ?thesis
      by (auto simp: startListening_def catch_block_def Let_def split: if_splits)
  next
    case (Granted d)
    with Start assms(1) have st: "step (Start c t (Granted d)) cf = Some cf'" by simp
    from st obtain s1 cf2 where
      a: "s1 = openSession ((hook cf)\<lparr>error := None\<rparr>)"
        "step (Tick c t d) (cf\<lparr>hook := s1\<rparr>) = Some cf2"
        "hook cf' = hook cf2 \<or> hook cf' = catch_block (hook cf2)"
      by (rule start_granted_as_tick)
    have "isSpeaking (hook (cf\<lparr>hook := s1\<rparr>))"
      using assms(2) by (simp add: a(1) openSession_def Let_def)
    from tick_keeps_speaking [OF a(2) this] a(3) assms(3) show ?thesis
      by (auto simp: catch_block_def)
  qed
next
  case Stop
  with assms show ?thesis by simp
qed

text \<open>
  What holds of the flag in every run from the mounted hook. A step other than
  \<^verbatim>\<open>stopListening\<close> that takes the flag from true to false is the timeout's callback, and
  when it runs the smoothed level has been at or below the threshold at every sampling
  tick of an unbroken stretch that began at least 800 ms earlier, and at least 200 ms have
  gone by since the onset timestamp. A tick whose smoothed level is above the threshold
  clears the pending timeout and breaks that stretch, and if its callback holds
  \<^verbatim>\<open>isSpeaking = false\<close> the flag is true after it.
\<close>

lemma speaking_transitions:
  assumes "run evs (mounted t0) = Some cf" and "step e cf = Some cf'"
  shows "(isSpeaking (hook cf) \<and> \<not> isSpeaking (hook cf') \<and> e \<noteq> Stop \<longrightarrow>
            (\<exists>t q. e = TimerFires t \<and> quietSince cf = Some q \<and> q + SILENCE_DELAY \<le> t
                 \<and> lastSpeakingTimeRef (hook cf) + MIN_SPEAKING_DURATION \<le> t))
       \<and> (\<forall>c t d v. e = Tick c t d \<and> analyserRef (hook cf) \<noteq> None \<and> normalizedLevel d = Inr v
              \<and> smoothedLevel (push_history (volumeHistoryRef (hook cf)) v) > SILENCE_THRESHOLD \<longrightarrow>
            silenceTimeoutRef (hook cf') = None \<and> quietSince cf' = None
            \<and> (\<not> c \<longrightarrow> isSpeaking (hook cf')))"
proof -
  have part1: "\<exists>t q. e = TimerFires t \<and> quietSince cf = Some q \<and> q + SILENCE_DELAY \<le> t
                 \<and> lastSpeakingTimeRef (hook cf) + MIN_SPEAKING_DURATION \<le> t"
    if a: "isSpeaking (hook cf) \<and> \<not> isSpeaking (hook cf') \<and> e \<noteq> Stop"
  proof -
    from run_quiet_inv [OF mounted_quiet_inv assms(1)] have q: "quiet_inv cf" .
    from speaking_cleared_by [OF assms(2)] a obtain t due where
      e: "e = TimerFires t" "silenceTimeoutRef (hook cf) = Some due" "due \<le> t"
         "lastSpeakingTimeRef (hook cf) + MIN_SPEAKING_DURATION \<le> t" by blast
    from q e(2) obtain q0 where "quietSince cf = Some q0" "q0 + SILENCE_DELAY \<le> due"
      by (auto simp: quiet_inv_iff)
    with e show ?thesis by auto
  qed
  have part2: "silenceTimeoutRef (hook cf') = None \<and> quietSince cf' = None
            \<and> (\<not> c \<longrightarrow> isSpeaking (hook cf'))"
    if a: "e = Tick c t d \<and> analyserRef (hook cf) \<noteq> None \<and> normalizedLevel d = Inr v
              \<and> smoothedLevel (push_history (volumeHistoryRef (hook cf)) v) > SILENCE_THRESHOLD"
    for c t d v
  proof -
    from a obtain s' where s': "analyzeAudio c t d (hook cf) = Inr s'"
      using analyzeAudio_samples [of "hook cf" d v c t] by blast
    from analyzeAudio_cases [OF s'] a
    have "silenceTimeoutRef s' = None \<and> isSpeaking s' = (if c then isSpeaking (hook cf) else True)"
      by auto
    moreover from assms(2) a s' have "hook cf' = s'" "quietSince cf' = None"
      by (auto simp: observe_def split: if_splits)
    ultimately show ?thesis by simp
  qed
  from part1 part2 show ?thesis by blast
qed

lemma speaking_transitions_example:
  "\<exists>cf cf' df df'.
      run [Start False 0 (Granted (flat 2)), Tick True 16 (flat 0)] (mounted 0) = Some cf
    \<and> step (TimerFires 816) cf = Some cf'
    \<and> isSpeaking (hook cf) \<and> \<not> isSpeaking (hook cf')
    \<and> quietSince cf = Some 16 \<and> lastSpeakingTimeRef (hook cf) = 0
    \<and> run [Start False 0 (Granted (flat 0))] (mounted 0) = Some df
    \<and> step (Tick False 16 (flat 255)) df = Some df'
    \<and> \<not> isSpeaking (hook df) \<and> isSpeaking (hook df')"
proof -
  obtain cf where r: "run [Start False 0 (Granted (flat 2)), Tick True 16 (flat 0)] (mounted 0) = Some cf"
    and c: "isSpeaking (hook cf)" "silenceTimeoutRef (hook cf) = Some 816" "clock cf = 16"
      "lastSpeakingTimeRef (hook cf) = 0" "quietSince cf = Some 16"
    by (simp add: hook_defs)
  obtain cf' where s: "step (TimerFires 816) cf = Some cf'" and c': "\<not> isSpeaking (hook cf')"
    using c by (simp add: hook_defs)
  obtain df where r2: "run [Start False 0 (Granted (flat 0))] (mounted 0) = Some df"
    and d: "\<not> isSpeaking (hook df)" "analyserRef (hook df) \<noteq> None"
      "volumeHistoryRef (hook df) = [0]" "clock df = 0"
    by (simp add: hook_defs)
  obtain df' where s2: "step (Tick False 16 (flat 255)) df = Some df'"
    using d by simp
  have v: "normalizedLevel (flat 255) = Inr 1" by (simp add: hook_defs)
  from speaking_transitions [OF r s] c c'
  have "\<exists>q. quietSince cf = Some q \<and> q + SILENCE_DELAY \<le> 816" by auto
  moreover from speaking_transitions [OF r2 s2] d v
  have "isSpeaking (hook df')" by (auto simp: hook_defs)
  ultimately show ?thesis using r s c c' r2 s2 d by blast
qed

text \<open>
  C1 fails on the code in its second half. The first \<^verbatim>\<open>startListening\<close> hears a loud frame
  and sets the flag; \<^verbatim>\<open>stopListening\<close> clears it; a \<^verbatim>\<open>startListening\<close> that was created while
  the flag was true then resolves, so its \<^verbatim>\<open>analyzeAudio\<close> holds \<^verbatim>\<open>isSpeaking = true\<close> for good.
  Its first sample and the next frame are both at full scale, the smoothed level is \<open>1\<close>,
  and the flag is still false: the callback takes itself to be speaking already and never
  calls \<^verbatim>\<open>setIsSpeaking(true)\<close>.
\<close>

theorem onset_missed_by_stale_closure:
  "map_option
     (\<lambda>cf. (isListening (hook cf), smoothedLevel (volumeHistoryRef (hook cf)), isSpeaking (hook cf)))
     (run [Start False 0 (Granted (flat 255)), Stop,
           Start True 20 (Granted (flat 255)), Tick True 36 (flat 255)] (mounted 0))
   = Some (True, 1, False)"
  by (simp add: hook_defs)

text \<open>
  C10. In a run from the hook mounted at a time \<open>t0 \<ge> 0\<close>, whenever the timeout fires at
  least 800 ms have gone by since the onset timestamp, so the 200 ms guard of the
  callback passes and the callback clears the flag and the ref. A call of
  \<^verbatim>\<open>analyzeAudio\<close> arms the timeout only if its callback holds \<^verbatim>\<open>isSpeaking = true\<close>, and then
  for 800 ms after the time of the call.
\<close>

theorem silence_timer_guard_passes:
  assumes "0 \<le> t0" and "run evs (mounted t0) = Some cf" and "step (TimerFires t) cf = Some cf'"
  shows "lastSpeakingTimeRef (hook cf) + SILENCE_DELAY \<le> t
       \<and> MIN_SPEAKING_DURATION \<le> t - lastSpeakingTimeRef (hook cf)
       \<and> hook cf' = (hook cf)\<lparr>isSpeaking := False, silenceTimeoutRef := None\<rparr>
       \<and> (analyzeAudio c1 t1 d1 s1 = Inr s2 \<and> silenceTimeoutRef s1 = None
             \<and> silenceTimeoutRef s2 \<noteq> None \<longrightarrow>
           c1 \<and> silenceTimeoutRef s2 = Some (t1 + SILENCE_DELAY))"
proof -
  from run_onset_inv [OF mounted_onset_inv [OF assms(1)] assms(2)] have o: "onset_inv cf" .
  from assms(3) obtain due where d: "silenceTimeoutRef (hook cf) = Some due" "due \<le> t"
    and h: "hook cf' = silenceTimeout t (hook cf)"
    by (auto split: if_splits option.splits)
  from o d have 1: "lastSpeakingTimeRef (hook cf) + SILENCE_DELAY \<le> t"
    by (auto simp: onset_inv_iff)
  then have 2: "MIN_SPEAKING_DURATION \<le> t - lastSpeakingTimeRef (hook cf)"
    by (simp add: SILENCE_DELAY_def MIN_SPEAKING_DURATION_def)
  from 2 h have 3: "hook cf' = (hook cf)\<lparr>isSpeaking := False, silenceTimeoutRef := None\<rparr>"
    by (simp add: silenceTimeout_def Let_def)
  have 4: "c1 \<and> silenceTimeoutRef s2 = Some (t1 + SILENCE_DELAY)"
    if "analyzeAudio c1 t1 d1 s1 = Inr s2 \<and> silenceTimeoutRef s1 = None
          \<and> silenceTimeoutRef s2 \<noteq> None"
    using analyzeAudio_cases [of c1 t1 d1 s1 s2] that by (auto split: if_splits)
  from 1 2 3 4 show ?thesis by blast
qed

theorem silence_timer_guard_passes_witness:
  "\<exists>cf cf'.
      run [Start False 0 (Granted (flat 2)), Tick True 16 (flat 0)] (mounted 0) = Some cf
    \<and> step (TimerFires 816) cf = Some cf'
    \<and> lastSpeakingTimeRef (hook cf) = 0 \<and> isSpeaking (hook cf) \<and> \<not> isSpeaking (hook cf')"
proof -
  have t0: "(0::int) \<le> 0" by simp
  obtain cf where r: "run [Start False 0 (Granted (flat 2)), Tick True 16 (flat 0)] (mounted 0) = Some cf"
    and c: "isSpeaking (hook cf)" "silenceTimeoutRef (hook cf) = Some 816" "clock cf = 16"
      "lastSpeakingTimeRef (hook cf) = 0"
    by (simp add: hook_defs)
  obtain cf' where s: "step (TimerFires 816) cf = Some cf'"
    using c by simp
  from silence_timer_guard_passes [OF t0 r s] have "\<not> isSpeaking (hook cf')" by simp
  with r s c show ?thesis by blast
qed

text \<open>
  A loop whose callback holds \<^verbatim>\<open>isSpeaking = false\<close> never arms the timeout and never
  clears the flag: a frame of such a loop only ever enters the branch that sets it.
\<close>

lemma loop_unaware_of_speaking:
  assumes "analysisLoop False frames s = Inr s'" "silenceTimeoutRef s = None"
  shows "silenceTimeoutRef s' = None \<and> (isSpeaking s \<longrightarrow> isSpeaking s')"
  using assms
proof (induction frames arbitrary: s)
  case Nil
  then show ?case by simp
next
  case (Cons f frames)
  obtain t d where f: "f = (t, d)" by (cases f)
  from Cons.prems(1) obtain s1 where s1: "analyzeAudio False t d s = Inr s1"
    "analysisLoop False frames s1 = Inr s'"
    by (auto simp: f split: sum.splits)
  from analyzeAudio_cases [OF s1(1)] Cons.prems(2)
  have "silenceTimeoutRef s1 = None \<and> (isSpeaking s \<longrightarrow> isSpeaking s1)"
    by (auto split: if_splits)
  with Cons.IH [OF s1(2)] show ?case by simp
qed

end
